theory Spec2Isabelle
  imports Main "HOL-Library.Word"
begin

section \<open>The splash screen of \<^verbatim>\<open>ui/splash_screen.cc\<close>\<close>

text \<open>
  The class \<^verbatim>\<open>SplashScreen\<close> owns a dialog window that is created and served by a worker
  thread and dismissed, with a fade-out, from another thread. The members \<^verbatim>\<open>state_\<close>,
  \<^verbatim>\<open>alpha_index_\<close> and \<^verbatim>\<open>timer_created_\<close> are the fields \<open>state\<close>, \<open>alpha_index\<close> and
  \<open>timer_created\<close> of the record below (an Isabelle name cannot end in an underscore).

  The Win32 side of the program is written out as further fields: whether the window
  handle is valid (\<^verbatim>\<open>IsWindow()\<close>), whether the timer \<^verbatim>\<open>kClosingTimerID\<close> is installed,
  the posted messages not yet retrieved, how many started threads have not yet entered
  \<^verbatim>\<open>Run\<close>, and whether the worker thread is inside \<^verbatim>\<open>message_loop.Run()\<close>. Every call that
  leaves the object is recorded, in order, in \<open>trace\<close>; every assignment to \<^verbatim>\<open>state_\<close> is
  recorded in \<open>state_log\<close>. What the system answers (whether a window can be created,
  an icon set, a timer granted) is an argument of the function that asks.

  Each member function runs as one step: \<^verbatim>\<open>Show\<close>, \<^verbatim>\<open>Dismiss\<close>, \<^verbatim>\<open>SwitchToState\<close>,
  \<^verbatim>\<open>Close\<close> and the first block of \<^verbatim>\<open>Run\<close> hold \<^verbatim>\<open>lock_\<close>, and the message handlers
  run one at a time on the worker thread.
\<close>

subsection \<open>Constants and the alpha conversion\<close>

definition kDefaultAlphaScale :: int where
  "kDefaultAlphaScale = 100"

definition kAlphaScales :: "int list" where
  "kAlphaScales = [0, 30, 47, 62, 75, 85, 93, kDefaultAlphaScale]"

text \<open>A C++ \<^verbatim>\<open>int\<close> is 32 bits wide here; \<open>int32\<close> is the value an out-of-range result
  wraps to, and \<open>cdiv\<close> is the division of C++, which truncates towards zero.\<close>

definition int32 :: "int \<Rightarrow> int" where
  "int32 x = (x + 2 ^ 31) mod 2 ^ 32 - 2 ^ 31"

definition cdiv :: "int \<Rightarrow> int \<Rightarrow> int" where
  "cdiv a b = sgn a * sgn b * (\<bar>a\<bar> div \<bar>b\<bar>)"

text \<open>\<^verbatim>\<open>static_cast<uint8>(alpha_scale * 255 / 100)\<close>. The assertion on the argument is
  \<open>alpha_scale_ok\<close>; the callers below record its failure.\<close>

definition alpha_scale_ok :: "int \<Rightarrow> bool" where
  "alpha_scale_ok alpha_scale \<longleftrightarrow> alpha_scale \<ge> 0 \<and> alpha_scale \<le> 100"

definition AlphaScaleToAlphaValue :: "int \<Rightarrow> 8 word" where
  "AlphaScaleToAlphaValue alpha_scale = word_of_int (cdiv (int32 (alpha_scale * 255)) 100)"

subsection \<open>The object and its surroundings\<close>

datatype WindowState =
  STATE_CREATED | STATE_INITIALIZED | STATE_SHOW_NORMAL | STATE_FADING | STATE_CLOSED

datatype message = WM_CLOSE | WM_QUIT

datatype effect =
    ThreadStart               \<comment> \<open>\<^verbatim>\<open>thread_.Start(this)\<close>\<close>
  | AssertFailed              \<comment> \<open>an \<^verbatim>\<open>ASSERT1\<close> or \<^verbatim>\<open>VERIFY1\<close> whose condition is false\<close>
  | LogWarning                \<comment> \<open>\<^verbatim>\<open>CORE_LOG(LW, ...)\<close>\<close>
  | CreateCalled bool         \<comment> \<open>\<^verbatim>\<open>Create(NULL)\<close> and whether it gave a window\<close>
  | ConfigureDialog           \<comment> \<open>caption, system buttons, image, text and progress bar\<close>
  | CenterWindowCalled        \<comment> \<open>\<^verbatim>\<open>CenterWindow(NULL)\<close>\<close>
  | LayeredAlpha "8 word"     \<comment> \<open>\<^verbatim>\<open>::SetLayeredWindowAttributes(m_hWnd, 0, alpha, LWA_ALPHA)\<close>\<close>
  | ShowWindowCalled          \<comment> \<open>\<^verbatim>\<open>ShowWindow(SW_SHOWNORMAL)\<close>\<close>
  | SetTimerCalled bool       \<comment> \<open>\<^verbatim>\<open>SetTimer(kClosingTimerID, kTimerInterval, NULL)\<close> and its success\<close>
  | KillTimerCalled           \<comment> \<open>\<^verbatim>\<open>KillTimer(kClosingTimerID)\<close>\<close>
  | PostClose                 \<comment> \<open>\<^verbatim>\<open>PostMessage(WM_CLOSE, 0, 0)\<close>\<close>
  | DestroyCalled bool        \<comment> \<open>\<^verbatim>\<open>DestroyWindow()\<close> and whether there was a window\<close>
  | PostQuit                  \<comment> \<open>\<^verbatim>\<open>::PostQuitMessage(0)\<close>\<close>

record world =
  state :: WindowState
  alpha_index :: int
  timer_created :: bool
  hwnd :: bool
  timer_armed :: bool
  queue :: "message list"
  pending_runs :: nat
  in_loop :: bool
  trace :: "effect list"
  state_log :: "WindowState list"

definition emit :: "effect \<Rightarrow> world \<Rightarrow> world" where
  "emit e w = w\<lparr>trace := trace w @ [e]\<rparr>"

text \<open>A failed assertion is reported and execution goes on, as in a release build.\<close>

definition ASSERT1 :: "bool \<Rightarrow> world \<Rightarrow> world" where
  "ASSERT1 c w = (if c then w else emit AssertFailed w)"

text \<open>The call \<^verbatim>\<open>::SetLayeredWindowAttributes(m_hWnd, 0, AlphaScaleToAlphaValue(s), LWA_ALPHA)\<close>,
  with the assertion of the conversion.\<close>

definition ApplyAlpha :: "int \<Rightarrow> world \<Rightarrow> world" where
  "ApplyAlpha alpha_scale w =
     emit (LayeredAlpha (AlphaScaleToAlphaValue alpha_scale))
       (ASSERT1 (alpha_scale_ok alpha_scale) w)"

subsection \<open>Member functions\<close>

text \<open>\<^verbatim>\<open>Close\<close>: the close request is posted only for a live window of an object that is
  not closed.\<close>

definition Close :: "world \<Rightarrow> world" where
  "Close w =
     (if state w \<noteq> STATE_CLOSED \<and> hwnd w
      then emit PostClose (w\<lparr>queue := queue w @ [WM_CLOSE]\<rparr>)
      else w)"

text \<open>\<^verbatim>\<open>SwitchToState\<close>. The argument \<open>timer_ok\<close> is what \<^verbatim>\<open>SetTimer\<close> answers (non-zero or
  zero), and \<^verbatim>\<open>timer_created_\<close> stores that answer as it comes. The timer that sends ticks
  to the window is installed by a call that succeeds while the window exists.
  \<^verbatim>\<open>arraysize(kAlphaScales) - 1\<close> is \<open>int (length kAlphaScales) - 1\<close>.\<close>

definition SwitchToState :: "bool \<Rightarrow> WindowState \<Rightarrow> world \<Rightarrow> world" where
  "SwitchToState timer_ok new_state w =
     (let w1 = w\<lparr>state := new_state, state_log := state_log w @ [new_state]\<rparr> in
      case new_state of
        STATE_CREATED \<Rightarrow> w1
      | STATE_INITIALIZED \<Rightarrow> w1
      | STATE_SHOW_NORMAL \<Rightarrow> w1\<lparr>alpha_index := int (length kAlphaScales) - 1\<rparr>
      | STATE_FADING \<Rightarrow>
          (let w2 = ASSERT1 (hwnd w1) w1;
               w3 = emit (SetTimerCalled timer_ok)
                      (w2\<lparr>timer_armed := (timer_armed w2 \<or> (hwnd w2 \<and> timer_ok)),
                          timer_created := timer_ok\<rparr>)
           in if \<not> timer_created w3 then Close (emit LogWarning w3) else w3)
      | STATE_CLOSED \<Rightarrow> w1)"

text \<open>The object as the constructor leaves it.\<close>

definition SplashScreen :: world where
  "SplashScreen =
     SwitchToState False STATE_CREATED
       \<lparr>state = STATE_CREATED, alpha_index = 0, timer_created = False, hwnd = False,
        timer_armed = False, queue = [], pending_runs = 0, in_loop = False,
        trace = [], state_log = []\<rparr>"

text \<open>Modelled from the spec: the class \<^verbatim>\<open>Thread\<close> behind \<^verbatim>\<open>thread_.Start(this)\<close> is not in
  this file. "Show(): spawns the worker thread bound to this controller": each call of
  \<^verbatim>\<open>Start\<close> is recorded and lets \<^verbatim>\<open>Run\<close> be entered once more.\<close>

definition Thread_Start :: "world \<Rightarrow> world" where
  "Thread_Start w = emit ThreadStart (w\<lparr>pending_runs := pending_runs w + 1\<rparr>)"

definition Show :: "world \<Rightarrow> world" where
  "Show w = (if state w = STATE_CREATED then Thread_Start w else ASSERT1 False w)"

definition Dismiss :: "bool \<Rightarrow> world \<Rightarrow> world" where
  "Dismiss timer_ok w =
     (case state w of
        STATE_CREATED \<Rightarrow> SwitchToState timer_ok STATE_CLOSED w
      | STATE_SHOW_NORMAL \<Rightarrow> SwitchToState timer_ok STATE_FADING w
      | STATE_CLOSED \<Rightarrow> w
      | STATE_FADING \<Rightarrow> w
      | STATE_INITIALIZED \<Rightarrow> w)"

text \<open>\<^verbatim>\<open>Initialize\<close>: \<open>create_ok\<close> and \<open>icon_ok\<close> are the outcomes of \<^verbatim>\<open>Create(NULL)\<close> and of
  \<^verbatim>\<open>WindowUtils::SetWindowIcon\<close>. The result says whether \<^verbatim>\<open>S_OK\<close> was returned. The calls
  on the controls of the dialog between \<^verbatim>\<open>Create\<close> and the first opacity are one effect,
  and they and \<^verbatim>\<open>CenterWindow\<close> are taken to succeed.\<close>

definition Initialize :: "bool \<Rightarrow> bool \<Rightarrow> world \<Rightarrow> bool \<times> world" where
  "Initialize create_ok icon_ok w =
     (let w1 = ASSERT1 (\<not> hwnd w) w;
          w2 = ASSERT1 (state w1 = STATE_CREATED) w1
      in if \<not> create_ok then (False, emit (CreateCalled False) w2)
         else
           (let w3 = emit (CreateCalled True) (w2\<lparr>hwnd := True\<rparr>);
                w4 = emit ConfigureDialog w3;
                w5 = ApplyAlpha kDefaultAlphaScale w4;
                w6 = emit CenterWindowCalled w5;
                w7 = (if icon_ok then w6 else emit LogWarning w6)
            in (True, SwitchToState False STATE_INITIALIZED w7)))"

text \<open>\<^verbatim>\<open>OnTimer\<close>. The decrement and the read \<^verbatim>\<open>kAlphaScales[alpha_index_]\<close> are defined only
  while the new index is inside the table; \<open>None\<close> stands for the undefined behaviour of
  any other index.\<close>

definition OnTimer :: "world \<Rightarrow> world option" where
  "OnTimer w =
     (let w1 = ASSERT1 (state w = STATE_FADING) w;
          w2 = ASSERT1 (alpha_index w1 > 0) w1;
          w3 = w2\<lparr>alpha_index := alpha_index w2 - 1\<rparr>
      in if alpha_index w3 \<noteq> 0
         then (if 0 \<le> alpha_index w3 \<and> alpha_index w3 < int (length kAlphaScales)
               then Some (ApplyAlpha (kAlphaScales ! nat (alpha_index w3)) w3)
               else None)
         else Some (Close w3))"

definition KillTimer :: "world \<Rightarrow> world" where
  "KillTimer w = emit KillTimerCalled (w\<lparr>timer_armed := False\<rparr>)"

definition OnDestroy :: "world \<Rightarrow> world" where
  "OnDestroy w =
     (let w1 = (if timer_created w then KillTimer (ASSERT1 (hwnd w) w) else w)
      in emit PostQuit (w1\<lparr>queue := queue w1 @ [WM_QUIT]\<rparr>))"

text \<open>\<^verbatim>\<open>DestroyWindow()\<close> of a live window sends the destroy notification to the window
  procedure before it returns, so \<^verbatim>\<open>OnDestroy\<close> runs inside it; then the handle is
  invalid, the timers of the window are gone and the messages posted to the window are
  dropped. The quit request belongs to the thread and stays.\<close>

definition DestroyWindow :: "world \<Rightarrow> world" where
  "DestroyWindow w =
     (if hwnd w
      then (let w1 = OnDestroy (emit (DestroyCalled True) w)
            in w1\<lparr>hwnd := False, timer_armed := False,
                  queue := filter (\<lambda>m. m \<noteq> WM_CLOSE) (queue w1)\<rparr>)
      else emit (DestroyCalled False) w)"

definition OnClose :: "world \<Rightarrow> world" where
  "OnClose w = DestroyWindow w"

text \<open>\<^verbatim>\<open>Run\<close> is in three parts, since the message loop in its middle waits for the
  surroundings: the block under the lock, one retrieval of the loop at a time
  (\<open>GetMessage\<close> below), and the statement after the loop.\<close>

definition Run_begin :: "bool \<Rightarrow> bool \<Rightarrow> world \<Rightarrow> world" where
  "Run_begin create_ok icon_ok w =
     (if state w \<noteq> STATE_CREATED then w
      else (case Initialize create_ok icon_ok w of
              (False, w1) \<Rightarrow> w1
            | (True, w1) \<Rightarrow>
                (let w2 = ASSERT1 (hwnd w1) w1;
                     w3 = emit ShowWindowCalled w2;
                     w4 = SwitchToState False STATE_SHOW_NORMAL w3
                 in w4\<lparr>in_loop := True\<rparr>)))"

definition Run_end :: "world \<Rightarrow> world" where
  "Run_end w = SwitchToState False STATE_CLOSED (w\<lparr>in_loop := False\<rparr>)"

subsection \<open>The message loop and the steps of the system\<close>

text \<open>One retrieval of \<^verbatim>\<open>message_loop.Run()\<close>: a posted message is taken first, the quit
  request ends the loop, and the timer message is produced only when nothing is posted
  and the timer is installed. With nothing to retrieve the loop waits (\<open>None\<close>).\<close>

definition GetMessage :: "world \<Rightarrow> world option" where
  "GetMessage w =
     (if \<not> in_loop w then None
      else (case queue w of
              [] \<Rightarrow> (if timer_armed w then OnTimer w else None)
            | WM_CLOSE # q \<Rightarrow> Some (OnClose (w\<lparr>queue := q\<rparr>))
            | WM_QUIT # q \<Rightarrow> Some (Run_end (w\<lparr>queue := q\<rparr>))))"

datatype event =
    CallShow                  \<comment> \<open>some thread calls \<^verbatim>\<open>Show()\<close>\<close>
  | CallDismiss bool          \<comment> \<open>some thread calls \<^verbatim>\<open>Dismiss()\<close>; the answer to a timer request\<close>
  | ThreadRun bool bool       \<comment> \<open>a started thread enters \<^verbatim>\<open>Run()\<close>; outcomes of create and icon\<close>
  | Retrieve                  \<comment> \<open>the loop retrieves and dispatches one message\<close>
  | ExternalClose             \<comment> \<open>a close request posted to the window from outside\<close>

fun fire :: "event \<Rightarrow> world \<Rightarrow> world option" where
  "fire CallShow w = Some (Show w)"
| "fire (CallDismiss timer_ok) w = Some (Dismiss timer_ok w)"
| "fire (ThreadRun create_ok icon_ok) w =
     (if pending_runs w = 0 then None
      else Some (Run_begin create_ok icon_ok (w\<lparr>pending_runs := pending_runs w - 1\<rparr>)))"
| "fire Retrieve w = GetMessage w"
| "fire ExternalClose w =
     (if hwnd w then Some (w\<lparr>queue := queue w @ [WM_CLOSE]\<rparr>) else None)"

fun run :: "event list \<Rightarrow> world \<Rightarrow> world option" where
  "run [] w = Some w"
| "run (e # es) w = (case fire e w of None \<Rightarrow> None | Some w1 \<Rightarrow> run es w1)"

text \<open>The opacity applications of a trace.\<close>

fun is_alpha :: "effect \<Rightarrow> bool" where
  "is_alpha (LayeredAlpha a) = True"
| "is_alpha e = False"

definition alphas :: "effect list \<Rightarrow> effect list" where
  "alphas t = filter is_alpha t"

text \<open>The order in which the states are meant to be passed.\<close>

fun rank :: "WindowState \<Rightarrow> nat" where
  "rank STATE_CREATED = 0"
| "rank STATE_INITIALIZED = 1"
| "rank STATE_SHOW_NORMAL = 2"
| "rank STATE_FADING = 3"
| "rank STATE_CLOSED = 4"

text \<open>The effects recorded after a given earlier moment.\<close>

definition effects_since :: "world \<Rightarrow> world \<Rightarrow> effect list" where
  "effects_since w0 w = drop (length (trace w0)) (trace w)"

text \<open>The world after the events \<open>es\<close>, from the constructed object, when they can all
  take place.\<close>

definition after :: "event list \<Rightarrow> world" where
  "after es = the (run es SplashScreen)"

subsection \<open>Invariants\<close>

text \<open>What holds of every world the steps can reach from the constructed object.\<close>

definition Inv :: "world \<Rightarrow> bool" where
  "Inv w \<longleftrightarrow>
     0 \<le> alpha_index w \<and> alpha_index w \<le> 7 \<and>
     (state w = STATE_SHOW_NORMAL \<longrightarrow> alpha_index w = 7) \<and>
     (timer_armed w \<longrightarrow> hwnd w \<and> timer_created w \<and> state w = STATE_FADING) \<and>
     (timer_created w \<longrightarrow> state w = STATE_FADING \<or> state w = STATE_CLOSED) \<and>
     (hwnd w \<longrightarrow> in_loop w \<and> WM_QUIT \<notin> set (queue w)) \<and>
     (in_loop w \<longrightarrow> state w = STATE_SHOW_NORMAL \<or> state w = STATE_FADING) \<and>
     (timer_armed w \<and> alpha_index w = 0 \<longrightarrow> queue w \<noteq> []) \<and>
     state w \<noteq> STATE_INITIALIZED \<and>
     (state w = STATE_CREATED \<longrightarrow>
        queue w = [] \<and> set (trace w) \<subseteq> {ThreadStart, CreateCalled False})"

definition increasing :: "WindowState list \<Rightarrow> bool" where
  "increasing xs = sorted_wrt (\<lambda>a b. rank a < rank b) xs"

definition LogInv :: "world \<Rightarrow> bool" where
  "LogInv w \<longleftrightarrow>
     increasing (state_log w) \<and> state_log w \<noteq> [] \<and> last (state_log w) = state w"

text \<open>The fade has reached index 0: a tick can no longer be retrieved.\<close>

definition Faded :: "world \<Rightarrow> bool" where
  "Faded w \<longleftrightarrow>
     alpha_index w = 0 \<and> (state w = STATE_FADING \<or> state w = STATE_CLOSED) \<and>
     (timer_armed w \<longrightarrow> hwnd w \<and> queue w \<noteq> []) \<and>
     (hwnd w \<longrightarrow> WM_QUIT \<notin> set (queue w))"

text \<open>Closed before any window was made.\<close>

definition Never_shown :: "world \<Rightarrow> bool" where
  "Never_shown w \<longleftrightarrow>
     state w = STATE_CLOSED \<and> \<not> hwnd w \<and> \<not> in_loop w \<and> \<not> timer_armed w \<and>
     \<not> timer_created w \<and> set (trace w) \<subseteq> {ThreadStart, CreateCalled False, AssertFailed}"

text \<open>The window is destroyed and the loop has only the quit request left to retrieve.\<close>

definition Torn_down :: "world \<Rightarrow> bool" where
  "Torn_down w \<longleftrightarrow>
     in_loop w \<and> \<not> hwnd w \<and> \<not> timer_armed w \<and> queue w = [WM_QUIT] \<and>
     (state w = STATE_SHOW_NORMAL \<or> state w = STATE_FADING)"

text \<open>The fade is under way at index \<open>k\<close> with the effects \<open>t\<close> so far, and the next
  retrieval of the loop is a tick.\<close>

definition Fading_at :: "int \<Rightarrow> effect list \<Rightarrow> world \<Rightarrow> bool" where
  "Fading_at k t w \<longleftrightarrow>
     state w = STATE_FADING \<and> timer_armed w \<and> hwnd w \<and> in_loop w \<and> queue w = [] \<and>
     alpha_index w = k \<and> trace w = t"

section \<open>The alpha conversion\<close>

lemma int32_id: "- (2 ^ 31) \<le> x \<Longrightarrow> x < 2 ^ 31 \<Longrightarrow> int32 x = x"
  by (simp add: int32_def)

lemma cdiv_nonneg: "0 \<le> a \<Longrightarrow> 0 < b \<Longrightarrow> cdiv a b = a div b"
  by (cases "a = 0") (simp_all add: cdiv_def)

lemma AlphaScaleToAlphaValue_uint:
  assumes "0 \<le> s" "s \<le> 100"
  shows "uint (AlphaScaleToAlphaValue s) = s * 255 div 100"
proof -
  have "int32 (s * 255) = s * 255"
    using assms by (intro int32_id) simp_all
  moreover have "cdiv (s * 255) 100 = s * 255 div 100"
    using assms by (intro cdiv_nonneg) simp_all
  moreover have "0 \<le> s * 255 div 100" "s * 255 div 100 < 256"
    using assms by simp_all
  ultimately show ?thesis
    by (simp add: AlphaScaleToAlphaValue_def uint_word_of_int take_bit_eq_mod)
qed

text \<open>
  C10. For an alpha scale \<open>s\<close> between 0 and 100 the conversion returns \<open>s * 255 div 100\<close>
  (no wrap-around of the 32-bit product, and the quotient is at most 255, so the cast to
  eight bits loses nothing); 0 goes to 0 and 100 to 255; the conversion is monotone on
  0..100, and so along the opacity table, whose entries all pass the assertion.
\<close>

theorem AlphaScaleToAlphaValue_exact:
  "(0 \<le> s \<and> s \<le> 100 \<longrightarrow>
      uint (AlphaScaleToAlphaValue s) = s * 255 div 100 \<and>
      s * 255 div 100 \<le> 255) \<and>
   AlphaScaleToAlphaValue 0 = 0 \<and> AlphaScaleToAlphaValue 100 = 255 \<and>
   (0 \<le> s \<and> s \<le> t \<and> t \<le> 100 \<longrightarrow> AlphaScaleToAlphaValue s \<le> AlphaScaleToAlphaValue t) \<and>
   (\<forall>i j. i \<le> j \<and> j < length kAlphaScales \<longrightarrow>
      alpha_scale_ok (kAlphaScales ! i) \<and>
      AlphaScaleToAlphaValue (kAlphaScales ! i) \<le> AlphaScaleToAlphaValue (kAlphaScales ! j))"
proof -
  have exact: "0 \<le> s \<and> s \<le> 100 \<longrightarrow>
      uint (AlphaScaleToAlphaValue s) = s * 255 div 100 \<and> s * 255 div 100 \<le> 255"
    using AlphaScaleToAlphaValue_uint [of s] by auto
  have ends: "AlphaScaleToAlphaValue 0 = 0" "AlphaScaleToAlphaValue 100 = 255"
    by (simp_all add: AlphaScaleToAlphaValue_def int32_def cdiv_def)
  have mono: "AlphaScaleToAlphaValue a \<le> AlphaScaleToAlphaValue b"
    if "0 \<le> a" "a \<le> b" "b \<le> 100" for a b
  proof -
    have "a * 255 div 100 \<le> b * 255 div 100"
      using that by (intro zdiv_mono1) simp_all
    then show ?thesis
      using that by (simp add: word_le_def AlphaScaleToAlphaValue_uint)
  qed
  have sorted_scales: "sorted kAlphaScales"
    and range: "\<forall>x \<in> set kAlphaScales. 0 \<le> x \<and> x \<le> 100"
    by (simp_all add: kAlphaScales_def kDefaultAlphaScale_def)
  have table: "alpha_scale_ok (kAlphaScales ! i) \<and>
      AlphaScaleToAlphaValue (kAlphaScales ! i) \<le> AlphaScaleToAlphaValue (kAlphaScales ! j)"
    if "i \<le> j" "j < length kAlphaScales" for i j
  proof -
    have "kAlphaScales ! i \<le> kAlphaScales ! j"
      using sorted_scales that by (simp add: sorted_nth_mono)
    moreover have "kAlphaScales ! i \<in> set kAlphaScales" "kAlphaScales ! j \<in> set kAlphaScales"
      using that by simp_all
    ultimately show ?thesis
      using range mono by (simp add: alpha_scale_ok_def)
  qed
  from exact ends mono table show ?thesis by blast
qed

theorem AlphaScaleToAlphaValue_exact_witness:
  "(0::int) \<le> 47 \<and> (47::int) \<le> 62 \<and> (62::int) \<le> 100 \<and>
   uint (AlphaScaleToAlphaValue 47) = 119 \<and>
   AlphaScaleToAlphaValue 47 \<le> AlphaScaleToAlphaValue 62 \<and>
   (2::nat) \<le> 3 \<and> 3 < length kAlphaScales \<and>
   AlphaScaleToAlphaValue (kAlphaScales ! 2) \<le> AlphaScaleToAlphaValue (kAlphaScales ! 3)"
  using AlphaScaleToAlphaValue_exact [of 47 62] by (simp add: kAlphaScales_def)

section \<open>Invariants of the steps\<close>

subsection \<open>Frame facts and the log of states\<close>

lemma emit_fields [simp]:
  "state (emit e w) = state w" "alpha_index (emit e w) = alpha_index w"
  "timer_created (emit e w) = timer_created w" "hwnd (emit e w) = hwnd w"
  "timer_armed (emit e w) = timer_armed w" "queue (emit e w) = queue w"
  "pending_runs (emit e w) = pending_runs w" "in_loop (emit e w) = in_loop w"
  "state_log (emit e w) = state_log w" "trace (emit e w) = trace w @ [e]"
  by (simp_all add: emit_def)

lemma ASSERT1_fields [simp]:
  "state (ASSERT1 c w) = state w" "alpha_index (ASSERT1 c w) = alpha_index w"
  "timer_created (ASSERT1 c w) = timer_created w" "hwnd (ASSERT1 c w) = hwnd w"
  "timer_armed (ASSERT1 c w) = timer_armed w" "queue (ASSERT1 c w) = queue w"
  "pending_runs (ASSERT1 c w) = pending_runs w" "in_loop (ASSERT1 c w) = in_loop w"
  "state_log (ASSERT1 c w) = state_log w"
  "trace (ASSERT1 c w) = trace w @ (if c then [] else [AssertFailed])"
  by (simp_all add: ASSERT1_def)

lemma ASSERT1_True [simp]: "ASSERT1 True w = w"
  by (simp add: ASSERT1_def)

lemma state_SwitchToState [simp]: "state (SwitchToState ok s w) = s"
  by (cases s) (simp_all add: SwitchToState_def Let_def Close_def)

lemma state_log_SwitchToState [simp]:
  "state_log (SwitchToState ok s w) = state_log w @ [s]"
  by (cases s) (simp_all add: SwitchToState_def Let_def Close_def)

lemma increasing_le_last:
  "increasing xs \<Longrightarrow> x \<in> set xs \<Longrightarrow> rank x \<le> rank (last xs)"
  unfolding increasing_def
proof (induction xs)
  case Nil
  then show ?case by simp
next
  case (Cons a xs)
  then show ?case by (cases "xs = []") (auto simp: less_imp_le)
qed

lemma increasing_snoc:
  assumes "increasing xs" "xs \<noteq> []" "rank (last xs) < rank s"
  shows "increasing (xs @ [s])"
proof -
  have "\<forall>x\<in>set xs. rank x < rank s"
    using increasing_le_last [OF assms(1)] assms(3) by (meson le_less_trans)
  with assms(1) show ?thesis by (simp add: increasing_def sorted_wrt_append)
qed

lemma LogInv_SwitchToState:
  "LogInv w \<Longrightarrow> rank (state w) < rank s \<Longrightarrow> LogInv (SwitchToState ok s w)"
  by (simp add: LogInv_def increasing_snoc)

lemma LogInv_init: "LogInv SplashScreen"
  by (simp add: LogInv_def increasing_def SplashScreen_def)

lemma LogInv_Show: "LogInv w \<Longrightarrow> LogInv (Show w)"
  by (simp add: LogInv_def Show_def Thread_Start_def)

lemma LogInv_Dismiss: "LogInv w \<Longrightarrow> LogInv (Dismiss ok w)"
  by (cases "state w") (simp_all add: Dismiss_def LogInv_SwitchToState)

lemma LogInv_Run_begin:
  assumes "LogInv w"
  shows "LogInv (Run_begin c i (w\<lparr>pending_runs := n\<rparr>))"
proof (cases "state w = STATE_CREATED \<and> c")
  case False
  then show ?thesis 
    using assms by (auto simp: Run_begin_def Initialize_def Let_def LogInv_def)
next
  case True
  then have "state_log (Run_begin c i (w\<lparr>pending_runs := n\<rparr>)) 
       = (state_log w @ [STATE_INITIALIZED]) @ [STATE_SHOW_NORMAL]"
    and "state (Run_begin c i (w\<lparr>pending_runs := n\<rparr>)) = STATE_SHOW_NORMAL"
    by (simp_all add: Run_begin_def Initialize_def Let_def ApplyAlpha_def)
  moreover have "increasing ((state_log w @ [STATE_INITIALIZED]) @ [STATE_SHOW_NORMAL])"
    using assms True by (intro increasing_snoc) (simp_all add: LogInv_def)
  ultimately show ?thesis by (simp add: LogInv_def)
qed

lemma LogInv_OnTimer: "LogInv w \<Longrightarrow> OnTimer w = Some w' \<Longrightarrow> LogInv w'"
  by (auto simp: OnTimer_def Let_def LogInv_def ApplyAlpha_def Close_def split: if_splits)

lemma LogInv_OnClose: "LogInv w \<Longrightarrow> LogInv (OnClose (w\<lparr>queue := q\<rparr>))"
  by (simp add: OnClose_def DestroyWindow_def OnDestroy_def KillTimer_def Let_def LogInv_def)

lemma LogInv_Run_end:
  "LogInv w \<Longrightarrow> state w \<noteq> STATE_CLOSED \<Longrightarrow> LogInv (Run_end (w\<lparr>queue := q\<rparr>))"
  unfolding Run_end_def
  by (rule LogInv_SwitchToState) (cases "state w"; simp add: LogInv_def)+

subsection \<open>The invariant is kept by every step\<close>

lemma Inv_init: "Inv SplashScreen"
  by (simp add: Inv_def SplashScreen_def SwitchToState_def)

lemma Inv_Show: "Inv w \<Longrightarrow> Inv (Show w)"
  by (auto simp: Inv_def Show_def Thread_Start_def)

lemma Inv_Dismiss: "Inv w \<Longrightarrow> Inv (Dismiss ok w)"
  by (cases "state w")
     (auto simp: Inv_def Dismiss_def SwitchToState_def Close_def Let_def kAlphaScales_def)

lemma Inv_Run_begin: "Inv w \<Longrightarrow> Inv (Run_begin c i (w\<lparr>pending_runs := n\<rparr>))"
  by (auto simp: Inv_def Run_begin_def Initialize_def SwitchToState_def
        ApplyAlpha_def Let_def kAlphaScales_def split: if_splits)

lemma Inv_OnTimer:
  "Inv w \<Longrightarrow> timer_armed w \<Longrightarrow> queue w = [] \<Longrightarrow> OnTimer w = Some w' \<Longrightarrow> Inv w'"
  by (auto simp: Inv_def OnTimer_def ApplyAlpha_def Close_def Let_def
        kAlphaScales_def split: if_splits)

lemma Inv_OnClose:
  "Inv w \<Longrightarrow> in_loop w \<Longrightarrow> queue w = WM_CLOSE # q \<Longrightarrow> Inv (OnClose (w\<lparr>queue := q\<rparr>))"
  by (auto simp: Inv_def OnClose_def DestroyWindow_def OnDestroy_def KillTimer_def
        Let_def split: if_splits)

lemma Inv_Run_end:
  "Inv w \<Longrightarrow> queue w = WM_QUIT # q \<Longrightarrow> Inv (Run_end (w\<lparr>queue := q\<rparr>))"
  by (auto simp: Inv_def Run_end_def SwitchToState_def)

lemma GetMessage_cases:
  assumes "GetMessage w = Some w'"
  obtains (tick) "in_loop w" "queue w = []" "timer_armed w" "OnTimer w = Some w'"
    | (close) q where "in_loop w" "queue w = WM_CLOSE # q" "w' = OnClose (w\<lparr>queue := q\<rparr>)"
    | (quit) q where "in_loop w" "queue w = WM_QUIT # q" "w' = Run_end (w\<lparr>queue := q\<rparr>)"
proof -
  from assms have loop: "in_loop w"
    by (simp add: GetMessage_def split: if_splits)
  show thesis
  proof (cases "queue w")
    case Nil
    with assms loop have "timer_armed w" "OnTimer w = Some w'"
      by (simp_all add: GetMessage_def split: if_splits)
    with loop Nil show thesis by (rule tick)
  next
    case (Cons m q)
    show thesis
    proof (cases m)
      case WM_CLOSE
      with assms loop Cons have "w' = OnClose (w\<lparr>queue := q\<rparr>)"
        by (simp add: GetMessage_def)
      with loop Cons WM_CLOSE show thesis by (intro close) simp_all
    next
      case WM_QUIT
      with assms loop Cons have "w' = Run_end (w\<lparr>queue := q\<rparr>)"
        by (simp add: GetMessage_def)
      with loop Cons WM_QUIT show thesis by (intro quit) simp_all
    qed
  qed
qed

lemma Inv_GetMessage:
  assumes "Inv w" "GetMessage w = Some w'"
  shows "Inv w'"
  using assms(2)
proof (cases rule: GetMessage_cases)
  case tick
  with assms(1) show ?thesis by (blast intro: Inv_OnTimer)
next
  case (close q)
  with assms(1) show ?thesis by (simp add: Inv_OnClose)
next
  case (quit q)
  with assms(1) show ?thesis by (simp add: Inv_Run_end)
qed

lemma Inv_ExternalClose: "Inv w \<Longrightarrow> hwnd w \<Longrightarrow> Inv (w\<lparr>queue := queue w @ [WM_CLOSE]\<rparr>)"
  by (auto simp: Inv_def)

lemma Inv_fire:
  assumes "Inv w" "fire e w = Some w'"
  shows "Inv w'"
proof (cases e)
  case CallShow
  with assms show ?thesis by (auto simp: Inv_Show)
next
  case (CallDismiss ok)
  with assms show ?thesis by (auto simp: Inv_Dismiss)
next
  case (ThreadRun c i)
  with assms show ?thesis by (auto simp: Inv_Run_begin split: if_splits)
next
  case Retrieve
  with assms show ?thesis by (simp add: Inv_GetMessage)
next
  case ExternalClose
  with assms show ?thesis by (auto simp: Inv_ExternalClose split: if_splits)
qed

lemma LogInv_GetMessage:
  assumes "Inv w" "LogInv w" "GetMessage w = Some w'"
  shows "LogInv w'"
  using assms(3)
proof (cases rule: GetMessage_cases)
  case tick
  with assms(2) show ?thesis by (blast intro: LogInv_OnTimer)
next
  case (close q)
  with assms(2) show ?thesis by (simp add: LogInv_OnClose)
next
  case (quit q)
  with assms(1) have "state w \<noteq> STATE_CLOSED" by (auto simp: Inv_def)
  with quit assms(2) show ?thesis by (simp add: LogInv_Run_end)
qed

lemma LogInv_fire:
  assumes "Inv w" "LogInv w" "fire e w = Some w'"
  shows "LogInv w'"
proof (cases e)
  case CallShow
  with assms show ?thesis by (auto simp: LogInv_Show)
next
  case (CallDismiss ok)
  with assms show ?thesis by (auto simp: LogInv_Dismiss)
next
  case (ThreadRun c i)
  with assms show ?thesis by (auto simp: LogInv_Run_begin split: if_splits)
next
  case Retrieve
  with assms show ?thesis by (simp add: LogInv_GetMessage)
next
  case ExternalClose
  with assms show ?thesis by (auto simp: LogInv_def split: if_splits)
qed

lemma run_append:
  "run (es @ es') w = (case run es w of None \<Rightarrow> None | Some w1 \<Rightarrow> run es' w1)"
  by (induction es arbitrary: w) (simp_all split: option.splits)

lemma run_invariant:
  assumes step: "\<And>e w w'. P w \<Longrightarrow> fire e w = Some w' \<Longrightarrow> P w'"
  shows "P w \<Longrightarrow> run es w = Some w' \<Longrightarrow> P w'"
proof (induction es arbitrary: w)
  case Nil
  then show ?case by simp
next
  case (Cons e es)
  then obtain w1 where "fire e w = Some w1" "run es w1 = Some w'"
    by (auto split: option.splits)
  with Cons.IH [of w1] step [OF Cons.prems(1)] show ?case by blast
qed

lemma Inv_run: "Inv w \<Longrightarrow> run es w = Some w' \<Longrightarrow> Inv w'"
  by (rule run_invariant [where P = Inv]) (rule Inv_fire)

lemma Inv_LogInv_run:
  "Inv w \<and> LogInv w \<Longrightarrow> run es w = Some w' \<Longrightarrow> Inv w' \<and> LogInv w'"
  by (rule run_invariant [where P = "\<lambda>w. Inv w \<and> LogInv w"])
     (blast intro: Inv_fire LogInv_fire)

lemma reachable_Inv: "run es SplashScreen = Some w \<Longrightarrow> Inv w \<and> LogInv w"
  using Inv_LogInv_run [of SplashScreen es w] by (simp add: Inv_init LogInv_init)

subsection \<open>After the fade\<close>

lemma alphas_append [simp]: "alphas (t @ u) = alphas t @ alphas u"
  by (simp add: alphas_def)

lemma alphas_simps [simp]:
  "alphas [] = []" "alphas (LayeredAlpha a # t) = LayeredAlpha a # alphas t"
  "\<not> is_alpha e \<Longrightarrow> alphas (e # t) = alphas t"
  by (simp_all add: alphas_def)

lemma Faded_OnClose:
  "Faded w \<Longrightarrow> queue w = WM_CLOSE # q \<Longrightarrow>
   Faded (OnClose (w\<lparr>queue := q\<rparr>)) \<and>
   alphas (trace (OnClose (w\<lparr>queue := q\<rparr>))) = alphas (trace w)"
  by (auto simp: Faded_def OnClose_def DestroyWindow_def OnDestroy_def KillTimer_def Let_def)

lemma Faded_Run_end:
  "Faded w \<Longrightarrow> queue w = WM_QUIT # q \<Longrightarrow>
   Faded (Run_end (w\<lparr>queue := q\<rparr>)) \<and>
   alphas (trace (Run_end (w\<lparr>queue := q\<rparr>))) = alphas (trace w)"
  by (auto simp: Faded_def Run_end_def SwitchToState_def)

lemma Faded_GetMessage:
  assumes "Faded w" "GetMessage w = Some w'"
  shows "Faded w' \<and> alphas (trace w') = alphas (trace w)"
  using assms(2)
proof (cases rule: GetMessage_cases)
  case tick
  with assms(1) show ?thesis by (simp add: Faded_def)
next
  case (close q)
  with assms(1) show ?thesis by (simp add: Faded_OnClose)
next
  case (quit q)
  with assms(1) show ?thesis by (simp add: Faded_Run_end)
qed

lemma Faded_fire:
  assumes "Faded w" "fire e w = Some w'"
  shows "Faded w' \<and> alphas (trace w') = alphas (trace w)"
proof (cases e)
  case CallShow
  with assms show ?thesis by (auto simp: Faded_def Show_def)
next
  case (CallDismiss ok)
  with assms show ?thesis by (auto simp: Faded_def Dismiss_def)
next
  case (ThreadRun c i)
  with assms show ?thesis by (auto simp: Faded_def Run_begin_def split: if_splits)
next
  case Retrieve
  with assms show ?thesis by (simp add: Faded_GetMessage)
next
  case ExternalClose
  with assms show ?thesis by (auto simp: Faded_def split: if_splits)
qed

lemma Faded_run:
  "Faded w \<Longrightarrow> run es w = Some w' \<Longrightarrow> Faded w' \<and> alphas (trace w') = alphas (trace w)"
proof (induction es arbitrary: w)
  case Nil
  then show ?case by simp
next
  case (Cons e es)
  then obtain w1 where w1: "fire e w = Some w1" "run es w1 = Some w'"
    by (auto split: option.splits)
  from Faded_fire [OF Cons.prems(1) w1(1)] Cons.IH [OF _ w1(2)] show ?case by simp
qed

subsection \<open>Closed before shown, and torn down\<close>

lemma Never_shown_fire:
  assumes "Never_shown w" "fire e w = Some w'"
  shows "Never_shown w'"
proof (cases e)
  case CallShow
  with assms show ?thesis by (auto simp: Never_shown_def Show_def)
next
  case (CallDismiss ok)
  with assms show ?thesis by (auto simp: Never_shown_def Dismiss_def)
next
  case (ThreadRun c i)
  with assms show ?thesis by (auto simp: Never_shown_def Run_begin_def split: if_splits)
next
  case Retrieve
  with assms show ?thesis by (simp add: Never_shown_def GetMessage_def)
next
  case ExternalClose
  with assms show ?thesis by (simp add: Never_shown_def)
qed

lemma Never_shown_run: "Never_shown w \<Longrightarrow> run es w = Some w' \<Longrightarrow> Never_shown w'"
  by (rule run_invariant [where P = Never_shown]) (rule Never_shown_fire)

lemma Torn_down_Dismiss:
  assumes "Torn_down w"
  shows "Torn_down (Dismiss ok w)"
proof (cases "state w = STATE_SHOW_NORMAL")
  case True
  with assms show ?thesis
    by (cases ok) (simp_all add: Torn_down_def Dismiss_def SwitchToState_def Close_def Let_def)
next
  case False
  with assms have "state w = STATE_FADING" by (simp add: Torn_down_def)
  with assms show ?thesis by (simp add: Dismiss_def)
qed

lemma Torn_down_fire:
  assumes "Torn_down w" "fire e w = Some w'" "e \<noteq> Retrieve"
  shows "Torn_down w'"
proof (cases e)
  case CallShow
  with assms show ?thesis by (auto simp: Torn_down_def Show_def)
next
  case (CallDismiss ok)
  with assms show ?thesis by (auto simp: Torn_down_Dismiss)
next
  case (ThreadRun c i)
  with assms show ?thesis by (auto simp: Torn_down_def Run_begin_def split: if_splits)
next
  case Retrieve
  with assms show ?thesis by simp
next
  case ExternalClose
  with assms show ?thesis by (simp add: Torn_down_def)
qed

lemma Torn_down_run:
  "Torn_down w \<Longrightarrow> Retrieve \<notin> set es \<Longrightarrow> run es w = Some w' \<Longrightarrow> Torn_down w'"
proof (induction es arbitrary: w)
  case Nil
  then show ?case by simp
next
  case (Cons e es)
  then obtain w1 where w1: "fire e w = Some w1" "run es w1 = Some w'"
    by (auto split: option.splits)
  from Cons.prems(2) have "e \<noteq> Retrieve" "Retrieve \<notin> set es" by auto
  with Torn_down_fire [OF Cons.prems(1) w1(1)] Cons.IH [OF _ _ w1(2)] show ?case by simp
qed

lemma Torn_down_Retrieve:
  "Torn_down w \<Longrightarrow>
   \<exists>w'. fire Retrieve w = Some w' \<and> state w' = STATE_CLOSED \<and> \<not> in_loop w' \<and>
        \<not> hwnd w' \<and> \<not> timer_armed w'"
  by (auto simp: Torn_down_def GetMessage_def Run_end_def SwitchToState_def)

section \<open>Dismiss and Show\<close>

lemma Dismiss_rest:
  "state w = STATE_CLOSED \<or> state w = STATE_FADING \<or> state w = STATE_INITIALIZED \<Longrightarrow>
   Dismiss ok w = w"
  by (auto simp: Dismiss_def)

lemma Dismiss_lands:
  "state (Dismiss ok w) = STATE_CLOSED \<or> state (Dismiss ok w) = STATE_FADING \<or>
   state (Dismiss ok w) = STATE_INITIALIZED"
  by (cases "state w") (simp_all add: Dismiss_def)

lemma Dismiss_twice: "Dismiss ok2 (Dismiss ok1 w) = Dismiss ok1 w"
  by (rule Dismiss_rest) (rule Dismiss_lands)

lemma Dismiss_many: "run (map CallDismiss oks) (Dismiss ok w) = Some (Dismiss ok w)"
  by (induction oks) (simp_all add: Dismiss_twice)

text \<open>
  C4. In every world, reachable or not, a second \<^verbatim>\<open>Dismiss()\<close> changes nothing that the
  first one left, whatever the system would answer to a timer request, and so does any
  number of further calls; in the states CLOSED, FADING and INITIALIZED the call leaves
  the whole world as it is, the state, \<open>alpha_index\<close> and \<open>timer_created\<close> among it; a
  closed object stays closed.
\<close>

theorem Dismiss_idempotent:
  "Dismiss ok2 (Dismiss ok1 w) = Dismiss ok1 w \<and>
   run (map CallDismiss oks) (Dismiss ok1 w) = Some (Dismiss ok1 w) \<and>
   (state w = STATE_CLOSED \<or> state w = STATE_FADING \<or> state w = STATE_INITIALIZED \<longrightarrow>
      Dismiss ok1 w = w) \<and>
   (state w = STATE_CLOSED \<longrightarrow> state (Dismiss ok1 w) = STATE_CLOSED)"
  using Dismiss_rest [of w ok1] by (simp add: Dismiss_twice Dismiss_many)

theorem Dismiss_idempotent_witness:
  "state (Dismiss True SplashScreen) = STATE_CLOSED \<and>
   Dismiss False (Dismiss True SplashScreen) = Dismiss True SplashScreen \<and>
   run [CallDismiss True, CallDismiss False] (Dismiss True (Dismiss True SplashScreen))
     = Some (Dismiss True SplashScreen)"
  using Dismiss_idempotent [of False True "Dismiss True SplashScreen" "[True, False]"]
  by (simp add: Dismiss_def SplashScreen_def SwitchToState_def)

lemma effects_since_emit [simp]: "effects_since w (emit e w) = [e]"
  by (simp add: effects_since_def)

text \<open>
  C8, as the claim states it, fails: a second \<^verbatim>\<open>Show()\<close> that finds the state still
  CREATED (the worker thread has not yet left CREATED) calls \<^verbatim>\<open>thread_.Start\<close> once more
  and no assertion fails.
\<close>

theorem Show_twice_counterexample:
  "state (Show SplashScreen) = STATE_CREATED \<and>
   effects_since (Show SplashScreen) (Show (Show SplashScreen)) = [ThreadStart] \<and>
   pending_runs (Show (Show SplashScreen)) = 2 \<and>
   AssertFailed \<notin> set (trace (Show (Show SplashScreen)))"
  by (simp add: Show_def Thread_Start_def SplashScreen_def SwitchToState_def effects_since_def)

text \<open>
  C8, amended. \<^verbatim>\<open>Show()\<close> looks at the state, not at earlier calls: in the state CREATED
  it starts the worker thread, and no assertion fails; in every other state, the state
  CLOSED that \<^verbatim>\<open>Dismiss()\<close> leaves behind among them, it starts no thread, changes nothing
  and fails its assertion.
\<close>

theorem Show_contract:
  "(state w = STATE_CREATED \<longrightarrow>
      Show w = Thread_Start w \<and> effects_since w (Show w) = [ThreadStart] \<and>
      pending_runs (Show w) = pending_runs w + 1 \<and> state (Show w) = STATE_CREATED) \<and>
   (state w \<noteq> STATE_CREATED \<longrightarrow>
      Show w = emit AssertFailed w \<and> effects_since w (Show w) = [AssertFailed] \<and>
      pending_runs (Show w) = pending_runs w \<and> state (Show w) = state w) \<and>
   effects_since (Dismiss ok SplashScreen) (Show (Dismiss ok SplashScreen)) = [AssertFailed]"
  by (simp add: Show_def Thread_Start_def ASSERT1_def effects_since_def Dismiss_def
        SplashScreen_def SwitchToState_def)

theorem Show_contract_witness:
  "state SplashScreen = STATE_CREATED \<and>
   effects_since SplashScreen (Show SplashScreen) = [ThreadStart] \<and>
   state (Dismiss True SplashScreen) \<noteq> STATE_CREATED \<and>
   effects_since (Dismiss True SplashScreen) (Show (Dismiss True SplashScreen)) = [AssertFailed] \<and>
   pending_runs (Show (Dismiss True SplashScreen)) = 0"
  using Show_contract [of SplashScreen True] Show_contract [of "Dismiss True SplashScreen" True]
  by (simp add: Dismiss_def SplashScreen_def SwitchToState_def Show_def Thread_Start_def
        effects_since_def)

section \<open>The timer\<close>

text \<open>
  When the window exists and the timer cannot be armed on the way from SHOW_NORMAL to
  FADING, the transition records the failed \<^verbatim>\<open>SetTimer\<close>, logs a warning and posts the
  close request at once; it applies no opacity, fails no assertion, and returns normally
  in the state FADING with \<open>timer_created\<close> false.
\<close>

lemma timer_failure_closes:
  assumes "state w = STATE_SHOW_NORMAL" "hwnd w"
  shows "Dismiss False w = SwitchToState False STATE_FADING w \<and>
         effects_since w (Dismiss False w) = [SetTimerCalled False, LogWarning, PostClose] \<and>
         alphas (effects_since w (Dismiss False w)) = [] \<and>
         queue (Dismiss False w) = queue w @ [WM_CLOSE] \<and>
         state (Dismiss False w) = STATE_FADING \<and>
         \<not> timer_created (Dismiss False w) \<and>
         timer_armed (Dismiss False w) = timer_armed w \<and>
         alpha_index (Dismiss False w) = alpha_index w"
  using assms
  by (simp add: Dismiss_def SwitchToState_def Close_def effects_since_def Let_def)

lemma timer_failure_closes_example:
  "run [CallShow, ThreadRun True True] SplashScreen \<noteq> None \<and>
   state (after [CallShow, ThreadRun True True]) = STATE_SHOW_NORMAL \<and>
   hwnd (after [CallShow, ThreadRun True True]) \<and>
   effects_since (after [CallShow, ThreadRun True True])
     (Dismiss False (after [CallShow, ThreadRun True True]))
     = [SetTimerCalled False, LogWarning, PostClose] \<and>
   queue (Dismiss False (after [CallShow, ThreadRun True True]))
     = queue (after [CallShow, ThreadRun True True]) @ [WM_CLOSE]"
proof -
  have r: "run [CallShow, ThreadRun True True] SplashScreen \<noteq> None"
    and s: "state (after [CallShow, ThreadRun True True]) = STATE_SHOW_NORMAL"
    and h: "hwnd (after [CallShow, ThreadRun True True])"
    by code_simp+
  from timer_failure_closes [OF s h] r s h show ?thesis by blast
qed

text \<open>
  C5. A failure to arm the fade timer on the way from SHOW_NORMAL to FADING should at once
  give a close request. The code does not do so in the gap between the destruction of the
  window and the moment \<^verbatim>\<open>Run\<close> sets CLOSED: after a close request from outside has been
  handled, the state is still SHOW_NORMAL and the window is gone. A \<^verbatim>\<open>Dismiss()\<close> whose
  \<^verbatim>\<open>SetTimer\<close> fails then breaks the assertion \<^verbatim>\<open>ASSERT1(IsWindow())\<close> of the transition,
  logs the warning, and \<^verbatim>\<open>Close()\<close> posts nothing: the only message left is the quit
  request.
\<close>

theorem timer_failure_after_destroy:
  "run [CallShow, ThreadRun True True, ExternalClose, Retrieve] SplashScreen \<noteq> None \<and>
   state (after [CallShow, ThreadRun True True, ExternalClose, Retrieve]) = STATE_SHOW_NORMAL \<and>
   \<not> hwnd (after [CallShow, ThreadRun True True, ExternalClose, Retrieve]) \<and>
   effects_since (after [CallShow, ThreadRun True True, ExternalClose, Retrieve])
     (Dismiss False (after [CallShow, ThreadRun True True, ExternalClose, Retrieve]))
     = [AssertFailed, SetTimerCalled False, LogWarning] \<and>
   PostClose \<notin> set (effects_since (after [CallShow, ThreadRun True True, ExternalClose, Retrieve])
     (Dismiss False (after [CallShow, ThreadRun True True, ExternalClose, Retrieve]))) \<and>
   queue (Dismiss False (after [CallShow, ThreadRun True True, ExternalClose, Retrieve]))
     = [WM_QUIT]"
  by code_simp





section \<open>Dismissed before shown\<close>

lemma Dismiss_CREATED:
  assumes "Inv w" "state w = STATE_CREATED"
  shows "Never_shown (Dismiss ok w)" "trace (Dismiss ok w) = trace w"
  using assms by (auto simp: Inv_def Never_shown_def Dismiss_def SwitchToState_def)

text \<open>
  C6. In a reachable world whose state is CREATED, \<^verbatim>\<open>Dismiss()\<close> sets the state to CLOSED
  and does nothing else. Whatever happens afterwards (a started thread entering
  \<^verbatim>\<open>Run\<close>, further calls of \<^verbatim>\<open>Show\<close> and \<^verbatim>\<open>Dismiss\<close>), the state stays CLOSED, no window
  exists or was ever created, no timer was asked for, \<open>timer_created\<close> is false and no
  opacity was applied.
\<close>

theorem Dismiss_before_shown:
  assumes "run es SplashScreen = Some w" "state w = STATE_CREATED"
  shows "state (Dismiss ok w) = STATE_CLOSED \<and>
         effects_since w (Dismiss ok w) = [] \<and>
         (\<forall>es' w'. run es' (Dismiss ok w) = Some w' \<longrightarrow>
            state w' = STATE_CLOSED \<and> \<not> hwnd w' \<and> \<not> in_loop w' \<and>
            \<not> timer_armed w' \<and> \<not> timer_created w' \<and>
            CreateCalled True \<notin> set (trace w') \<and>
            (\<forall>b. SetTimerCalled b \<notin> set (trace w')) \<and>
            alphas (trace w') = [])"
proof -
  from assms(1) have inv: "Inv w" by (simp add: reachable_Inv)
  have ns: "Never_shown (Dismiss ok w)" and tr: "trace (Dismiss ok w) = trace w"
    using Dismiss_CREATED [OF inv assms(2)] by simp_all
  have later: "state w' = STATE_CLOSED \<and> \<not> hwnd w' \<and> \<not> in_loop w' \<and>
            \<not> timer_armed w' \<and> \<not> timer_created w' \<and>
            CreateCalled True \<notin> set (trace w') \<and>
            (\<forall>b. SetTimerCalled b \<notin> set (trace w')) \<and>
            alphas (trace w') = []"
    if "run es' (Dismiss ok w) = Some w'" for es' w'
  proof -
    from Never_shown_run [OF ns that] have n: "Never_shown w'" .
    then have sub: "set (trace w') \<subseteq> {ThreadStart, CreateCalled False, AssertFailed}"
      by (simp add: Never_shown_def)
    then have "\<forall>e \<in> set (trace w'). \<not> is_alpha e" by auto
    then have "alphas (trace w') = []" by (simp add: alphas_def)
    with n sub show ?thesis by (auto simp: Never_shown_def)
  qed
  from ns tr later show ?thesis
    by (simp add: Never_shown_def effects_since_def)
qed

theorem Dismiss_before_shown_witness:
  "run [CallShow] SplashScreen = Some (after [CallShow]) \<and>
   state (after [CallShow]) = STATE_CREATED \<and>
   state (Dismiss True (after [CallShow])) = STATE_CLOSED \<and>
   run [ThreadRun True True, CallShow, CallDismiss True] (Dismiss True (after [CallShow]))
     = Some (after [CallShow, CallDismiss True, ThreadRun True True, CallShow, CallDismiss True]) \<and>
   \<not> hwnd (after [CallShow, CallDismiss True, ThreadRun True True, CallShow, CallDismiss True]) \<and>
   CreateCalled True \<notin> set (trace (after [CallShow, CallDismiss True, ThreadRun True True, CallShow, CallDismiss True]))"
proof -
  have r: "run [CallShow] SplashScreen = Some (after [CallShow])"
    and s: "state (after [CallShow]) = STATE_CREATED"
    and r': "run [ThreadRun True True, CallShow, CallDismiss True] (Dismiss True (after [CallShow]))
     = Some (after [CallShow, CallDismiss True, ThreadRun True True, CallShow, CallDismiss True])"
    by code_simp+
  from Dismiss_before_shown [OF r s, of True] r s r' show ?thesis by blast
qed

section \<open>The order of the states\<close>

lemma increasing_after:
  assumes "increasing (xs @ a # ys)" "b \<in> set ys"
  shows "rank a < rank b"
  using assms by (auto simp: increasing_def sorted_wrt_append)

lemma state_log_fire:
  assumes "fire e w = Some w'"
  shows "\<exists>zs. state_log w' = state_log w @ zs"
proof (cases e)
  case CallShow
  with assms show ?thesis by (auto simp: Show_def Thread_Start_def)
next
  case (CallDismiss ok)
  with assms show ?thesis by (cases "state w") (auto simp: Dismiss_def)
next
  case (ThreadRun c i)
  with assms show ?thesis
    by (auto simp: Run_begin_def Initialize_def ApplyAlpha_def Let_def split: if_splits)
next
  case Retrieve
  with assms have "GetMessage w = Some w'" by simp
  then show ?thesis
  proof (cases rule: GetMessage_cases)
    case tick
    then show ?thesis
      by (auto simp: OnTimer_def ApplyAlpha_def Close_def Let_def split: if_splits)
  next
    case (close q)
    then show ?thesis
      by (simp add: OnClose_def DestroyWindow_def OnDestroy_def KillTimer_def Let_def)
  next
    case (quit q)
    then show ?thesis by (simp add: Run_end_def)
  qed
next
  case ExternalClose
  with assms show ?thesis by (auto split: if_splits)
qed

lemma state_log_run: "run es w = Some w' \<Longrightarrow> \<exists>zs. state_log w' = state_log w @ zs"
proof (induction es arbitrary: w)
  case Nil
  then show ?case by simp
next
  case (Cons e es)
  then obtain w1 where w1: "fire e w = Some w1" "run es w1 = Some w'"
    by (auto split: option.splits)
  from state_log_fire [OF w1(1)] Cons.IH [OF w1(2)] show ?case by auto
qed

lemma rank_bounds: "rank s \<le> 4" "(rank s = 0) = (s = STATE_CREATED)"
  "(rank s = 1) = (s = STATE_INITIALIZED)" "(rank s = 4) = (s = STATE_CLOSED)"
  by (cases s; simp)+

text \<open>
  C9. In every reachable world the states assigned so far are strictly increasing in the
  order CREATED, INITIALIZED, SHOW_NORMAL, FADING, CLOSED, and the last of them is the
  current state. So CREATED never comes after any state, INITIALIZED never comes after
  a state other than CREATED, and nothing comes after CLOSED. Seen from outside the
  functions: from a world that has left CREATED no run of steps leads to CREATED or
  INITIALIZED, and from a CLOSED world every run of steps ends CLOSED with no further
  assignment to the state.
\<close>

theorem states_never_return:
  assumes "run es SplashScreen = Some w"
  shows "increasing (state_log w) \<and> state_log w \<noteq> [] \<and> last (state_log w) = state w \<and>
         (\<forall>xs a ys. state_log w = xs @ a # ys \<longrightarrow>
            STATE_CREATED \<notin> set ys \<and>
            (a \<noteq> STATE_CREATED \<longrightarrow> STATE_INITIALIZED \<notin> set ys) \<and>
            (a = STATE_CLOSED \<longrightarrow> ys = [])) \<and>
         (\<forall>es' w'. run es' w = Some w' \<longrightarrow>
            (state w \<noteq> STATE_CREATED \<longrightarrow>
               state w' \<noteq> STATE_CREATED \<and> state w' \<noteq> STATE_INITIALIZED) \<and>
            (state w = STATE_CLOSED \<longrightarrow>
               state w' = STATE_CLOSED \<and> state_log w' = state_log w))"
proof -
  from assms have inv: "Inv w" and log: "LogInv w" by (simp_all add: reachable_Inv)
  have split: "STATE_CREATED \<notin> set ys \<and>
            (a \<noteq> STATE_CREATED \<longrightarrow> STATE_INITIALIZED \<notin> set ys) \<and>
            (a = STATE_CLOSED \<longrightarrow> ys = [])"
    if eq: "state_log w = xs @ a # ys" for xs a ys
  proof -
    have lt: "rank a < rank b" if "b \<in> set ys" for b
      using increasing_after [of xs a ys b] log eq that by (simp add: LogInv_def)
    have "STATE_CREATED \<notin> set ys" using lt [of STATE_CREATED] by auto
    moreover have "STATE_INITIALIZED \<notin> set ys" if "a \<noteq> STATE_CREATED"
      using lt [of STATE_INITIALIZED] that rank_bounds(2) [of a] by auto
    moreover have "ys = []" if "a = STATE_CLOSED"
    proof (cases ys)
      case Nil
      then show ?thesis .
    next
      case (Cons b bs)
      with lt [of b] that rank_bounds(1) [of b] show ?thesis by simp
    qed
    ultimately show ?thesis by blast
  qed
  have later: "(state w \<noteq> STATE_CREATED \<longrightarrow>
               state w' \<noteq> STATE_CREATED \<and> state w' \<noteq> STATE_INITIALIZED) \<and>
            (state w = STATE_CLOSED \<longrightarrow>
               state w' = STATE_CLOSED \<and> state_log w' = state_log w)"
    if run': "run es' w = Some w'" for es' w'
  proof -
    from run_append [of es es' SplashScreen] assms run'
    have "run (es @ es') SplashScreen = Some w'" by simp
    then have log': "LogInv w'" by (simp add: reachable_Inv)
    from state_log_run [OF run'] obtain zs where zs: "state_log w' = state_log w @ zs" by blast
    show ?thesis
    proof (cases zs)
      case Nil
      with zs log log' have "state w' = state w" by (simp add: LogInv_def)
      with inv Nil zs show ?thesis by (auto simp: Inv_def)
    next
      case (Cons z zs')
      from log obtain xs where xs: "state_log w = xs @ [state w]"
        by (metis LogInv_def append_butlast_last_id)
      from Cons zs log' have "state w' = last zs" by (simp add: LogInv_def)
      with Cons have last': "state w' \<in> set zs"
        using last_in_set [of zs] by simp
      from zs xs have "state_log w' = xs @ state w # zs" by simp
      with log' last' have "rank (state w) < rank (state w')"
        using increasing_after [of xs "state w" zs "state w'"] by (simp add: LogInv_def)
      with rank_bounds [of "state w'"] rank_bounds(4) [of "state w"] show ?thesis
        by (cases "state w'"; cases "state w"; simp)
    qed
  qed
  from log split later show ?thesis unfolding LogInv_def by blast
qed

theorem states_never_return_witness:
  "run [CallShow, ThreadRun True True, CallDismiss True] SplashScreen
     = Some (after [CallShow, ThreadRun True True, CallDismiss True]) \<and>
   state_log (after [CallShow, ThreadRun True True, CallDismiss True])
     = [STATE_CREATED] @ STATE_INITIALIZED # [STATE_SHOW_NORMAL, STATE_FADING] \<and>
   STATE_CREATED \<notin> set [STATE_SHOW_NORMAL, STATE_FADING] \<and>
   STATE_INITIALIZED \<notin> set [STATE_SHOW_NORMAL, STATE_FADING] \<and>
   increasing (state_log (after [CallShow, ThreadRun True True, CallDismiss True]))"
proof -
  have r: "run [CallShow, ThreadRun True True, CallDismiss True] SplashScreen
     = Some (after [CallShow, ThreadRun True True, CallDismiss True])"
    and l: "state_log (after [CallShow, ThreadRun True True, CallDismiss True])
     = [STATE_CREATED] @ STATE_INITIALIZED # [STATE_SHOW_NORMAL, STATE_FADING]"
    by code_simp+
  from states_never_return [OF r] r l show ?thesis by blast
qed

section \<open>The fade\<close>

lemma kAlphaScales_ok: "i < 8 \<Longrightarrow> alpha_scale_ok (kAlphaScales ! i)"
proof -
  assume "i < 8"
  moreover have "length kAlphaScales = 8" by (simp add: kAlphaScales_def)
  ultimately have "kAlphaScales ! i \<in> set kAlphaScales" by (intro nth_mem) simp
  moreover have "\<forall>x \<in> set kAlphaScales. alpha_scale_ok x"
    by (simp add: kAlphaScales_def kDefaultAlphaScale_def alpha_scale_ok_def)
  ultimately show ?thesis by blast
qed

lemma OnTimer_apply:
  assumes "state w = STATE_FADING" "1 < alpha_index w" "alpha_index w \<le> 7"
  shows "OnTimer w = Some (emit (LayeredAlpha (AlphaScaleToAlphaValue
            (kAlphaScales ! nat (alpha_index w - 1)))) (w\<lparr>alpha_index := alpha_index w - 1\<rparr>))"
proof -
  from assms have "nat (alpha_index w - 1) < 8" by simp
  then have "alpha_scale_ok (kAlphaScales ! nat (alpha_index w - 1))" by (rule kAlphaScales_ok)
  with assms show ?thesis
    by (simp add: OnTimer_def ApplyAlpha_def Let_def kAlphaScales_def)
qed

lemma OnTimer_close:
  assumes "state w = STATE_FADING" "alpha_index w = 1" "hwnd w"
  shows "OnTimer w = Some (emit PostClose (w\<lparr>alpha_index := 0, queue := queue w @ [WM_CLOSE]\<rparr>))"
  using assms by (simp add: OnTimer_def Close_def Let_def)

lemma tick_enabled:
  assumes "Inv w" "queue w = []" "timer_armed w"
  shows "state w = STATE_FADING" "hwnd w" "in_loop w" "0 < alpha_index w" "alpha_index w \<le> 7"
  using assms by (auto simp: Inv_def)

lemma GetMessage_tick:
  "in_loop w \<Longrightarrow> queue w = [] \<Longrightarrow> timer_armed w \<Longrightarrow> GetMessage w = OnTimer w"
  by (simp add: GetMessage_def)

text \<open>
  C2. Whenever the loop of a reachable world retrieves a tick (nothing is posted and the
  timer is installed), the state is FADING and \<open>alpha_index\<close> is positive; \<^verbatim>\<open>OnTimer\<close>
  returns, with \<open>alpha_index\<close> smaller by exactly 1 and not negative. If the new index is
  not 0 the only effect is the opacity of the new index. If it is 0 the only effect is
  the close request, which is now the next message of the loop, and from then on, whatever
  happens, the index stays 0 and no opacity is applied again.
\<close>

theorem fade_tick:
  assumes "run es SplashScreen = Some w" "queue w = []" "timer_armed w"
  shows "state w = STATE_FADING \<and> 0 < alpha_index w \<and>
         (\<exists>w'. fire Retrieve w = Some w' \<and> OnTimer w = Some w' \<and>
            state w' = STATE_FADING \<and>
            alpha_index w' = alpha_index w - 1 \<and> 0 \<le> alpha_index w' \<and>
            (alpha_index w' \<noteq> 0 \<longrightarrow>
               effects_since w w' =
                 [LayeredAlpha (AlphaScaleToAlphaValue (kAlphaScales ! nat (alpha_index w')))] \<and>
               queue w' = []) \<and>
            (alpha_index w' = 0 \<longrightarrow>
               effects_since w w' = [PostClose] \<and> queue w' = [WM_CLOSE] \<and>
               (\<forall>es' w''. run es' w' = Some w'' \<longrightarrow>
                  alpha_index w'' = 0 \<and> alphas (trace w'') = alphas (trace w'))))"
proof -
  from assms(1) have inv: "Inv w" by (simp add: reachable_Inv)
  note en = tick_enabled [OF inv assms(2,3)]
  have get: "fire Retrieve w = OnTimer w"
    using en(3) assms(2,3) by (simp add: GetMessage_tick)
  show ?thesis
  proof (cases "alpha_index w = 1")
    case True
    define w' where "w' = emit PostClose (w\<lparr>alpha_index := 0, queue := queue w @ [WM_CLOSE]\<rparr>)"
    have ot: "OnTimer w = Some w'"
      unfolding w'_def using en(1) True en(2) by (rule OnTimer_close)
    have faded: "Faded w'"
      using en assms(2) by (simp add: Faded_def w'_def)
    have stay: "alpha_index w'' = 0 \<and> alphas (trace w'') = alphas (trace w')"
      if "run es' w' = Some w''" for es' w''
      using Faded_run [OF faded that] by (simp add: Faded_def)
    have "state w' = STATE_FADING" "alpha_index w' = alpha_index w - 1" "alpha_index w' = 0"
      "effects_since w w' = [PostClose]" "queue w' = [WM_CLOSE]"
      using en(1) True assms(2) by (simp_all add: w'_def effects_since_def)
    with en(1,4) get ot stay show ?thesis by auto
  next
    case False
    with en(4) have gt: "1 < alpha_index w" by simp
    define w' where "w' = emit (LayeredAlpha (AlphaScaleToAlphaValue
            (kAlphaScales ! nat (alpha_index w - 1)))) (w\<lparr>alpha_index := alpha_index w - 1\<rparr>)"
    have ot: "OnTimer w = Some w'"
      unfolding w'_def using en(1) gt en(5) by (rule OnTimer_apply)
    have "state w' = STATE_FADING" "alpha_index w' = alpha_index w - 1" "alpha_index w' \<noteq> 0"
      "0 \<le> alpha_index w'"
      "effects_since w w' =
         [LayeredAlpha (AlphaScaleToAlphaValue (kAlphaScales ! nat (alpha_index w')))]"
      "queue w' = []"
      using en(1) gt assms(2) by (simp_all add: w'_def effects_since_def)
    with en(1,4) get ot show ?thesis by auto
  qed
qed

theorem fade_tick_witness:
  "run [CallShow, ThreadRun True True, CallDismiss True] SplashScreen
     = Some (after [CallShow, ThreadRun True True, CallDismiss True]) \<and>
   queue (after [CallShow, ThreadRun True True, CallDismiss True]) = [] \<and>
   timer_armed (after [CallShow, ThreadRun True True, CallDismiss True]) \<and>
   state (after [CallShow, ThreadRun True True, CallDismiss True]) = STATE_FADING \<and>
   0 < alpha_index (after [CallShow, ThreadRun True True, CallDismiss True]) \<and>
   (\<exists>w'. fire Retrieve (after [CallShow, ThreadRun True True, CallDismiss True]) = Some w' \<and>
      alpha_index w' = alpha_index (after [CallShow, ThreadRun True True, CallDismiss True]) - 1)"
proof -
  have r: "run [CallShow, ThreadRun True True, CallDismiss True] SplashScreen
     = Some (after [CallShow, ThreadRun True True, CallDismiss True])"
    and q: "queue (after [CallShow, ThreadRun True True, CallDismiss True]) = []"
    and t: "timer_armed (after [CallShow, ThreadRun True True, CallDismiss True])"
    by code_simp+
  from fade_tick [OF r q t] r q t show ?thesis by blast
qed

section \<open>The destroy notification\<close>

lemma no_quit_only_close: "WM_QUIT \<notin> set q \<Longrightarrow> filter (\<lambda>m. m \<noteq> WM_CLOSE) q = []"
proof (induction q)
  case Nil
  then show ?case by simp
next
  case (Cons m q)
  then show ?case by (cases m) simp_all
qed

lemma OnDestroy_effects:
  assumes "hwnd w"
  shows "effects_since w (OnDestroy w) = (if timer_created w then [KillTimerCalled] else []) @ [PostQuit]"
    "queue (OnDestroy w) = queue w @ [WM_QUIT]"
    "state (OnDestroy w) = state w"
    "timer_armed (OnDestroy w) = (timer_armed w \<and> \<not> timer_created w)"
    "in_loop (OnDestroy w) = in_loop w"
  using assms by (simp_all add: OnDestroy_def KillTimer_def effects_since_def Let_def)

lemma DestroyWindow_Torn_down:
  assumes "Inv w" "hwnd w"
  shows "Torn_down (DestroyWindow w)"
proof -
  from assms have q: "WM_QUIT \<notin> set (queue w)" and l: "in_loop w"
    and s: "state w = STATE_SHOW_NORMAL \<or> state w = STATE_FADING"
    by (auto simp: Inv_def)
  from q have "filter (\<lambda>m. m \<noteq> WM_CLOSE) (queue w) = []" by (rule no_quit_only_close)
  with assms(2) l s show ?thesis
    by (auto simp: Torn_down_def DestroyWindow_def OnDestroy_def KillTimer_def Let_def)
qed

text \<open>
  C7, as the claim states it, fails: the destroy notification does not move the state
  to CLOSED. \<^verbatim>\<open>OnDestroy\<close> assigns no state; when it and the \<^verbatim>\<open>DestroyWindow()\<close> around it
  have returned, the state is what it was (here FADING), and the loop is still running.
\<close>

theorem OnDestroy_keeps_state_counterexample:
  "run [CallShow, ThreadRun True True, CallDismiss True] SplashScreen \<noteq> None \<and>
   hwnd (after [CallShow, ThreadRun True True, CallDismiss True]) \<and>
   state (after [CallShow, ThreadRun True True, CallDismiss True]) = STATE_FADING \<and>
   state (OnDestroy (after [CallShow, ThreadRun True True, CallDismiss True])) \<noteq> STATE_CLOSED \<and>
   state (DestroyWindow (after [CallShow, ThreadRun True True, CallDismiss True])) = STATE_FADING \<and>
   in_loop (DestroyWindow (after [CallShow, ThreadRun True True, CallDismiss True]))"
  by code_simp

text \<open>
  C7, amended. In a reachable world with a window the state is not CLOSED. \<^verbatim>\<open>OnDestroy\<close>
  kills the timer when \<open>timer_created\<close> is set, which covers every installed timer, and
  then posts the quit request; it does not itself assign the state. When the
  \<^verbatim>\<open>DestroyWindow()\<close> that delivered the notification has returned, the quit request is
  all the loop has left, and whatever the other thread calls in between, the next
  retrieval ends the loop, and only then \<^verbatim>\<open>Run\<close> sets the state to CLOSED and returns.
\<close>

theorem OnDestroy_ends_loop:
  assumes "run es SplashScreen = Some w" "hwnd w"
  shows "state w \<noteq> STATE_CLOSED \<and>
         effects_since w (OnDestroy w)
           = (if timer_created w then [KillTimerCalled] else []) @ [PostQuit] \<and>
         (timer_armed w \<longrightarrow> KillTimerCalled \<in> set (effects_since w (OnDestroy w))) \<and>
         \<not> timer_armed (OnDestroy w) \<and>
         queue (OnDestroy w) = queue w @ [WM_QUIT] \<and>
         state (OnDestroy w) = state w \<and>
         queue (DestroyWindow w) = [WM_QUIT] \<and>
         (\<forall>es' w1. Retrieve \<notin> set es' \<and> run es' (DestroyWindow w) = Some w1 \<longrightarrow>
            (\<exists>w2. fire Retrieve w1 = Some w2 \<and> state w2 = STATE_CLOSED \<and>
               \<not> in_loop w2 \<and> \<not> hwnd w2 \<and> \<not> timer_armed w2))"
proof -
  from assms(1) have inv: "Inv w" by (simp add: reachable_Inv)
  from inv assms(2) have ne: "state w \<noteq> STATE_CLOSED" and ta: "timer_armed w \<longrightarrow> timer_created w"
    by (auto simp: Inv_def)
  note od = OnDestroy_effects [OF assms(2)]
  have td: "Torn_down (DestroyWindow w)"
    using inv assms(2) by (rule DestroyWindow_Torn_down)
  have exit: "\<exists>w2. fire Retrieve w1 = Some w2 \<and> state w2 = STATE_CLOSED \<and>
               \<not> in_loop w2 \<and> \<not> hwnd w2 \<and> \<not> timer_armed w2"
    if "Retrieve \<notin> set es'" "run es' (DestroyWindow w) = Some w1" for es' w1
    using Torn_down_Retrieve [OF Torn_down_run [OF td that]] .
  from td have "queue (DestroyWindow w) = [WM_QUIT]" by (simp add: Torn_down_def)
  with ne ta od exit show ?thesis by auto
qed

theorem OnDestroy_ends_loop_witness:
  "run [CallShow, ThreadRun True True, CallDismiss True] SplashScreen
     = Some (after [CallShow, ThreadRun True True, CallDismiss True]) \<and>
   hwnd (after [CallShow, ThreadRun True True, CallDismiss True]) \<and>
   timer_armed (after [CallShow, ThreadRun True True, CallDismiss True]) \<and>
   KillTimerCalled \<in> set (effects_since (after [CallShow, ThreadRun True True, CallDismiss True])
       (OnDestroy (after [CallShow, ThreadRun True True, CallDismiss True]))) \<and>
   Retrieve \<notin> set [CallDismiss True] \<and>
   run [CallDismiss True] (DestroyWindow (after [CallShow, ThreadRun True True, CallDismiss True]))
     = Some (DestroyWindow (after [CallShow, ThreadRun True True, CallDismiss True])) \<and>
   (\<exists>w2. fire Retrieve (DestroyWindow (after [CallShow, ThreadRun True True, CallDismiss True]))
       = Some w2 \<and> state w2 = STATE_CLOSED \<and> \<not> in_loop w2)"
proof -
  have r: "run [CallShow, ThreadRun True True, CallDismiss True] SplashScreen
     = Some (after [CallShow, ThreadRun True True, CallDismiss True])"
    and h: "hwnd (after [CallShow, ThreadRun True True, CallDismiss True])"
    and t: "timer_armed (after [CallShow, ThreadRun True True, CallDismiss True])"
    and n: "Retrieve \<notin> set [CallDismiss True]"
    and r': "run [CallDismiss True] (DestroyWindow (after [CallShow, ThreadRun True True, CallDismiss True]))
     = Some (DestroyWindow (after [CallShow, ThreadRun True True, CallDismiss True]))"
    by code_simp+
  from OnDestroy_ends_loop [OF r h] r h t n r' show ?thesis by blast
qed

section \<open>Seven ticks\<close>

lemma tick_step:
  assumes "Fading_at j t w" "1 < j" "j \<le> 7"
  shows "\<exists>w'. fire Retrieve w = Some w' \<and>
           Fading_at (j - 1)
             (t @ [LayeredAlpha (AlphaScaleToAlphaValue (kAlphaScales ! nat (j - 1)))]) w'"
proof -
  from assms have "state w = STATE_FADING" "1 < alpha_index w" "alpha_index w \<le> 7"
    by (simp_all add: Fading_at_def)
  from OnTimer_apply [OF this] assms show ?thesis
    by (simp add: Fading_at_def GetMessage_tick)
qed

lemma tick_last:
  assumes "Fading_at 1 t w"
  shows "\<exists>w'. fire Retrieve w = Some w' \<and> Faded w' \<and> trace w' = t @ [PostClose] \<and>
           queue w' = [WM_CLOSE] \<and> alpha_index w' = 0 \<and> state w' = STATE_FADING \<and>
           timer_armed w' \<and> hwnd w' \<and> in_loop w'"
proof -
  from assms have "state w = STATE_FADING" "alpha_index w = 1" "hwnd w"
    by (simp_all add: Fading_at_def)
  from OnTimer_close [OF this] assms show ?thesis
    by (simp add: Fading_at_def Faded_def GetMessage_tick)
qed

lemma Dismiss_starts_fade:
  assumes "Inv w" "state w = STATE_SHOW_NORMAL" "hwnd w" "queue w = []"
  shows "Fading_at 7 (trace w @ [SetTimerCalled True]) (Dismiss True w)"
  using assms by (auto simp: Inv_def Fading_at_def Dismiss_def SwitchToState_def Let_def)

lemma fade_values:
  "AlphaScaleToAlphaValue (kAlphaScales ! 6) = 237"
  "AlphaScaleToAlphaValue (kAlphaScales ! 5) = 216"
  "AlphaScaleToAlphaValue (kAlphaScales ! 4) = 191"
  "AlphaScaleToAlphaValue (kAlphaScales ! 3) = 158"
  "AlphaScaleToAlphaValue (kAlphaScales ! 2) = 119"
  "AlphaScaleToAlphaValue (kAlphaScales ! 1) = 76"
  "AlphaScaleToAlphaValue (kAlphaScales ! Suc 0) = 76"
  by code_simp+

lemma run_snoc:
  "run es w = Some w1 \<Longrightarrow> fire e w1 = Some w2 \<Longrightarrow> run (es @ [e]) w = Some w2"
  by (simp add: run_append)

lemma effects_since_trace: "trace w' = trace w @ t \<Longrightarrow> effects_since w w' = t"
  by (simp add: effects_since_def)

text \<open>
  C1, as the claim states it, fails: from the entry into SHOW_NORMAL, the dismissal and
  seven ticks apply the opacity six times, not seven; the seventh tick only posts the
  close request.
\<close>

theorem fade_out_seven_ticks_counterexample:
  "run ([CallShow, ThreadRun True True, CallDismiss True] @ replicate 7 Retrieve) SplashScreen
     \<noteq> None \<and>
   state (after [CallShow, ThreadRun True True]) = STATE_SHOW_NORMAL \<and>
   alpha_index (after [CallShow, ThreadRun True True]) = 7 \<and>
   length (alphas (effects_since (after [CallShow, ThreadRun True True])
     (after ([CallShow, ThreadRun True True, CallDismiss True] @ replicate 7 Retrieve)))) \<noteq> 7 \<and>
   effects_since (after ([CallShow, ThreadRun True True, CallDismiss True] @ replicate 6 Retrieve))
     (after ([CallShow, ThreadRun True True, CallDismiss True] @ replicate 7 Retrieve))
     = [PostClose]"
  by code_simp

text \<open>
  C1, amended. From a reachable world in SHOW_NORMAL with its window and nothing posted
  (\<open>alpha_index\<close> is 7, the last index of the table of eight), a dismissal that arms the
  timer and seven ticks all take place: the first six ticks apply the opacities of the
  indices 6 down to 1, the seventh applies none and posts the close request. The close
  request is the next message retrieved, its handling removes the timer, and in no
  continuation does the index move or an opacity get applied again: an eighth tick never
  fires.
\<close>

theorem fade_out_seven_ticks:
  assumes "run es SplashScreen = Some w" "state w = STATE_SHOW_NORMAL" "hwnd w" "queue w = []"
  shows "alpha_index w = int (length kAlphaScales) - 1 \<and>
     (\<exists>w6 w7. run (CallDismiss True # replicate 6 Retrieve) w = Some w6 \<and>
        fire Retrieve w6 = Some w7 \<and>
        run (CallDismiss True # replicate 7 Retrieve) w = Some w7 \<and>
        effects_since w w6 =
          [SetTimerCalled True, LayeredAlpha 237, LayeredAlpha 216, LayeredAlpha 191,
           LayeredAlpha 158, LayeredAlpha 119, LayeredAlpha 76] \<and>
        effects_since w6 w7 = [PostClose] \<and>
        length (alphas (effects_since w w7)) = 6 \<and>
        alpha_index w7 = 0 \<and> queue w7 = [WM_CLOSE] \<and>
        fire Retrieve w7 = Some (OnClose (w7\<lparr>queue := []\<rparr>)) \<and>
        \<not> timer_armed (OnClose (w7\<lparr>queue := []\<rparr>)) \<and>
        (\<forall>es' w'. run es' w7 = Some w' \<longrightarrow>
           alpha_index w' = 0 \<and> alphas (trace w') = alphas (trace w7)))"
proof -
  from assms(1) have inv: "Inv w" by (simp add: reachable_Inv)
  with assms(2) have top: "alpha_index w = int (length kAlphaScales) - 1"
    by (simp add: Inv_def kAlphaScales_def)
  let ?t0 = "trace w @ [SetTimerCalled True]"
  have f0: "Fading_at 7 ?t0 (Dismiss True w)"
    using inv assms(2-4) by (rule Dismiss_starts_fade)
  have r0: "run [CallDismiss True] w = Some (Dismiss True w)" by simp
  from tick_step [OF f0]
  obtain w1 where w1: "fire Retrieve (Dismiss True w) = Some w1"
    "Fading_at 6 (?t0 @ [LayeredAlpha 237]) w1"
    by (auto simp: fade_values)
  from tick_step [OF w1(2)]
  obtain w2 where w2: "fire Retrieve w1 = Some w2"
    "Fading_at 5 (?t0 @ [LayeredAlpha 237] @ [LayeredAlpha 216]) w2"
    by (auto simp: fade_values)
  from tick_step [OF w2(2)]
  obtain w3 where w3: "fire Retrieve w2 = Some w3"
    "Fading_at 4 (?t0 @ [LayeredAlpha 237] @ [LayeredAlpha 216] @ [LayeredAlpha 191]) w3"
    by (auto simp: fade_values)
  from tick_step [OF w3(2)]
  obtain w4 where w4: "fire Retrieve w3 = Some w4"
    "Fading_at 3 (?t0 @ [LayeredAlpha 237] @ [LayeredAlpha 216] @ [LayeredAlpha 191]
       @ [LayeredAlpha 158]) w4"
    by (auto simp: fade_values)
  from tick_step [OF w4(2)]
  obtain w5 where w5: "fire Retrieve w4 = Some w5"
    "Fading_at 2 (?t0 @ [LayeredAlpha 237] @ [LayeredAlpha 216] @ [LayeredAlpha 191]
       @ [LayeredAlpha 158] @ [LayeredAlpha 119]) w5"
    by (auto simp: fade_values)
  from tick_step [OF w5(2)]
  obtain w6 where w6: "fire Retrieve w5 = Some w6"
    "Fading_at 1 (?t0 @ [LayeredAlpha 237] @ [LayeredAlpha 216] @ [LayeredAlpha 191]
       @ [LayeredAlpha 158] @ [LayeredAlpha 119] @ [LayeredAlpha 76]) w6"
    by (auto simp: fade_values)
  from tick_last [OF w6(2)]
  obtain w7 where w7: "fire Retrieve w6 = Some w7" "Faded w7"
    "trace w7 = (?t0 @ [LayeredAlpha 237] @ [LayeredAlpha 216] @ [LayeredAlpha 191]
       @ [LayeredAlpha 158] @ [LayeredAlpha 119] @ [LayeredAlpha 76]) @ [PostClose]"
    "queue w7 = [WM_CLOSE]" "alpha_index w7 = 0" "hwnd w7" "in_loop w7"
    by blast
  have six: "replicate 6 Retrieve = [Retrieve, Retrieve, Retrieve, Retrieve, Retrieve, Retrieve]"
    and seven: "replicate 7 Retrieve = replicate 6 Retrieve @ [Retrieve]"
    by (simp_all add: numeral_eq_Suc)
  have run6: "run (CallDismiss True # replicate 6 Retrieve) w = Some w6"
    using w1(1) w2(1) w3(1) w4(1) w5(1) w6(1) by (simp add: six)
  have run7: "run (CallDismiss True # replicate 7 Retrieve) w = Some w7"
    using run_snoc [OF run6 w7(1)] by (simp add: seven)
  have e6: "effects_since w w6 =
          [SetTimerCalled True, LayeredAlpha 237, LayeredAlpha 216, LayeredAlpha 191,
           LayeredAlpha 158, LayeredAlpha 119, LayeredAlpha 76]"
    using w6(2) by (intro effects_since_trace) (simp add: Fading_at_def)
  have t6: "trace w6 = ?t0 @ [LayeredAlpha 237] @ [LayeredAlpha 216] @ [LayeredAlpha 191]
       @ [LayeredAlpha 158] @ [LayeredAlpha 119] @ [LayeredAlpha 76]"
    using w6(2) by (simp add: Fading_at_def)
  have e67: "effects_since w6 w7 = [PostClose]"
    by (rule effects_since_trace) (simp only: w7(3) t6)
  have e7: "effects_since w w7 =
          [SetTimerCalled True, LayeredAlpha 237, LayeredAlpha 216, LayeredAlpha 191,
           LayeredAlpha 158, LayeredAlpha 119, LayeredAlpha 76, PostClose]"
    by (rule effects_since_trace) (simp add: w7(3))
  have cnt: "length (alphas (effects_since w w7)) = 6"
    by (simp add: e7)
  have nxt: "fire Retrieve w7 = Some (OnClose (w7\<lparr>queue := []\<rparr>))"
    using w7(4,7) by (simp add: GetMessage_def)
  have off: "\<not> timer_armed (OnClose (w7\<lparr>queue := []\<rparr>))"
    using w7(6) by (simp add: OnClose_def DestroyWindow_def Let_def)
  have stay: "alpha_index w' = 0 \<and> alphas (trace w') = alphas (trace w7)"
    if "run es' w7 = Some w'" for es' w'
    using Faded_run [OF w7(2) that] by (simp add: Faded_def)
  from top run6 w7(1) run7 e6 e67 cnt w7(4,5) nxt off stay show ?thesis by blast
qed

theorem fade_out_seven_ticks_witness:
  "run [CallShow, ThreadRun True True] SplashScreen = Some (after [CallShow, ThreadRun True True]) \<and>
   state (after [CallShow, ThreadRun True True]) = STATE_SHOW_NORMAL \<and>
   hwnd (after [CallShow, ThreadRun True True]) \<and>
   queue (after [CallShow, ThreadRun True True]) = [] \<and>
   alpha_index (after [CallShow, ThreadRun True True]) = int (length kAlphaScales) - 1 \<and>
   (\<exists>w7. run (CallDismiss True # replicate 7 Retrieve) (after [CallShow, ThreadRun True True])
        = Some w7 \<and>
      length (alphas (effects_since (after [CallShow, ThreadRun True True]) w7)) = 6 \<and>
      queue w7 = [WM_CLOSE])"
proof -
  have r: "run [CallShow, ThreadRun True True] SplashScreen
      = Some (after [CallShow, ThreadRun True True])"
    and s: "state (after [CallShow, ThreadRun True True]) = STATE_SHOW_NORMAL"
    and h: "hwnd (after [CallShow, ThreadRun True True])"
    and q: "queue (after [CallShow, ThreadRun True True]) = []"
    by code_simp+
  from fade_out_seven_ticks [OF r s h q] r s h q show ?thesis by blast
qed

end
